theory Spec2Isabelle
  imports Main "HOL-Library.Word"
begin

section \<open>Text primitives used by the extractor\<close>

text \<open>
  The postings are modelled as ASCII text: a \<^typ>\<open>string\<close> is a list of 8-bit characters,
  and the character classes below are those of Python's \<^verbatim>\<open>re\<close> module and of
  \<^verbatim>\<open>str.lower\<close> restricted to ASCII (a character outside ASCII is left unchanged by
  \<open>lower\<close> and is neither a digit nor a word character).
\<close>

definition is_upper :: "char \<Rightarrow> bool" where
  "is_upper c = (c \<in> set ''ABCDEFGHIJKLMNOPQRSTUVWXYZ'')"

definition is_digit :: "char \<Rightarrow> bool" where
  "is_digit c = (c \<in> set ''0123456789'')"

definition is_word :: "char \<Rightarrow> bool" where
  \<comment> \<open>the class \<^verbatim>\<open>\w\<close>: letters, digits and the underscore\<close>
  "is_word c = (c \<in> set ''abcdefghijklmnopqrstuvwxyzABCDEFGHIJKLMNOPQRSTUVWXYZ0123456789_'')"

definition lower_char :: "char \<Rightarrow> char" where
  "lower_char c = (if is_upper c then char_of (of_char c + (32::nat)) else c)"

definition lower :: "string \<Rightarrow> string" where
  \<comment> \<open>\<^verbatim>\<open>str.lower()\<close>\<close>
  "lower s = map lower_char s"

fun starts_with :: "string \<Rightarrow> string \<Rightarrow> bool" where
  \<comment> \<open>\<open>starts_with l s\<close>: the text \<open>s\<close> begins with the literal \<open>l\<close>\<close>
  "starts_with [] s = True"
| "starts_with (a # l) [] = False"
| "starts_with (a # l) (c # s) = (a = c \<and> starts_with l s)"

section \<open>The regular expressions of the pattern lists\<close>

text \<open>
  A pattern is a sequence of the items that occur in the two pattern lists of
  \<^verbatim>\<open>extract_position_count\<close>:
  a literal, the capturing group \<^verbatim>\<open>(\d+)\<close>, an optional character out of a set
  (\<^verbatim>\<open>s?\<close>, \<^verbatim>\<open>[- ]?\<close>), a non-capturing alternation of literals
  (\<^verbatim>\<open>(?:are|have)\<close>) and the word boundary \<^verbatim>\<open>\b\<close>.
\<close>

datatype rx =
    Lit string
  | CapDigits
  | OptCh "char list"
  | AltLit "string list"
  | WordB

type_synonym pattern = "rx list"

text \<open>
  A match object is reduced to what the source reads from it: the text of group 1, when the
  group took part in the match.
\<close>

type_synonym match = "string option"

fun first_some :: "('a \<Rightarrow> 'b option) \<Rightarrow> 'a list \<Rightarrow> 'b option" where
  "first_some f [] = None"
| "first_some f (x # xs) = (case f x of Some y \<Rightarrow> Some y | None \<Rightarrow> first_some f xs)"

definition word_before :: "char option \<Rightarrow> bool" where
  "word_before prev = (case prev of None \<Rightarrow> False | Some c \<Rightarrow> is_word c)"

definition word_after :: "string \<Rightarrow> bool" where
  "word_after s = (case s of [] \<Rightarrow> False | c # _ \<Rightarrow> is_word c)"

definition last_of :: "char option \<Rightarrow> string \<Rightarrow> char option" where
  \<comment> \<open>the character before the current position, after the text \<open>l\<close> has been consumed\<close>
  "last_of prev l = (if l = [] then prev else Some (last l))"

text \<open>
  \<open>match_here p prev s g\<close> matches the pattern \<open>p\<close> at the start of \<open>s\<close>, where \<open>prev\<close> is the
  character before that position and \<open>g\<close> the text of group 1 so far. It backtracks the way
  Python's matcher does: \<^verbatim>\<open>\d+\<close> tries the longest run of digits first, then shorter
  ones; an optional character is tried before it is skipped; the branches of an
  alternation are tried from left to right.
\<close>

fun match_here :: "pattern \<Rightarrow> char option \<Rightarrow> string \<Rightarrow> match \<Rightarrow> match option" where
  "match_here [] prev s g = Some g"
| "match_here (Lit l # p) prev s g =
     (if starts_with l s then match_here p (last_of prev l) (drop (length l) s) g else None)"
| "match_here (CapDigits # p) prev s g =
     first_some (\<lambda>k. match_here p (last_of prev (take k s)) (drop k s) (Some (take k s)))
       (rev [1 ..< Suc (length (takeWhile is_digit s))])"
| "match_here (OptCh cs # p) prev s g =
     (case (case s of [] \<Rightarrow> None
            | c # s' \<Rightarrow> if c \<in> set cs then match_here p (Some c) s' g else None) of
        Some m \<Rightarrow> Some m
      | None \<Rightarrow> match_here p prev s g)"
| "match_here (AltLit ls # p) prev s g =
     first_some (\<lambda>l. if starts_with l s
                      then match_here p (last_of prev l) (drop (length l) s) g else None) ls"
| "match_here (WordB # p) prev s g =
     (if word_before prev \<noteq> word_after s then match_here p prev s g else None)"

text \<open>\<^verbatim>\<open>re.search\<close>: the match at the leftmost position that has one.\<close>

fun search_from :: "pattern \<Rightarrow> char option \<Rightarrow> string \<Rightarrow> match option" where
  "search_from p prev [] = match_here p prev [] None"
| "search_from p prev (c # s) =
     (case match_here p prev (c # s) None of
        Some m \<Rightarrow> Some m
      | None \<Rightarrow> search_from p (Some c) s)"

definition re_search :: "pattern \<Rightarrow> string \<Rightarrow> match option" where
  "re_search p s = search_from p None s"

section \<open>The opening-count extractor\<close>

datatype error = ValueError | TypeError

text \<open>
  The second component of a pattern entry is a Python object; the source tests it with
  \<^verbatim>\<open>isinstance(value, int)\<close>, which is the case distinction on \<open>PyInt\<close> below.
\<close>

datatype pyobj = PyInt int | PyStr string

fun digit_val :: "char \<Rightarrow> int" where
  "digit_val c = int (of_char c) - 48"

fun py_int :: "string \<Rightarrow> error + int" where
  \<comment> \<open>\<^verbatim>\<open>int(s)\<close> on a captured text\<close>
  "py_int s =
     (if s \<noteq> [] \<and> list_all is_digit s
      then Inr (foldl (\<lambda>n c. 10 * n + digit_val c) 0 s)
      else Inl ValueError)"

fun int_group1 :: "match \<Rightarrow> error + int" where
  \<comment> \<open>\<^verbatim>\<open>int(match.group(1))\<close>\<close>
  "int_group1 None = Inl TypeError"
| "int_group1 (Some s) = py_int s"

definition number_patterns :: "(pattern \<times> pyobj) list" where
  "number_patterns =
    [([Lit ''('', CapDigits, Lit '' position'', OptCh ''s'', Lit '')''], PyInt 1),
     ([CapDigits, Lit '' tenure'', OptCh ''- '', Lit ''track position''], PyInt 1),
     ([CapDigits, Lit '' position''], PyInt 1),
     ([WordB, Lit ''two'', WordB], PyInt 2),
     ([WordB, Lit ''three'', WordB], PyInt 3),
     ([WordB, Lit ''four'', WordB], PyInt 4),
     ([WordB, Lit ''five'', WordB], PyInt 5),
     ([WordB, Lit ''six'', WordB], PyInt 6),
     ([WordB, Lit ''several'', WordB], PyInt 3),
     ([WordB, Lit ''multiple'', WordB], PyInt 2)]"

definition text_patterns :: "(pattern \<times> pyobj) list" where
  "text_patterns =
    [([Lit ''we '', AltLit [''are'', ''have''], Lit '' '', CapDigits, Lit '' '',
       AltLit [''openings'', ''positions'', ''vacancies'']], PyInt 1),
     ([CapDigits, Lit '' tenure'', OptCh ''- '', Lit ''track position'', OptCh ''s''], PyInt 1),
     ([Lit ''hiring '', CapDigits, Lit '' '', AltLit [''assistant'', ''associate'', ''full'']],
      PyInt 1),
     ([Lit ''invites applications for '', CapDigits], PyInt 1),
     ([Lit ''we seek '', CapDigits], PyInt 1),
     ([Lit ''recruiting '', CapDigits], PyInt 1),
     ([Lit ''we '', AltLit [''are'', ''have''], Lit '' two''], PyInt 2),
     ([Lit ''we '', AltLit [''are'', ''have''], Lit '' three''], PyInt 3),
     ([Lit ''we '', AltLit [''are'', ''have''], Lit '' four''], PyInt 4),
     ([Lit ''we '', AltLit [''are'', ''have''], Lit '' five''], PyInt 5)]"

text \<open>
  The loop over the title patterns: the first pattern that matches decides and ends the
  loop (\<^verbatim>\<open>break\<close>); a conversion error of \<^verbatim>\<open>int(match.group(1))\<close> is not caught here.
\<close>

fun title_loop :: "(pattern \<times> pyobj) list \<Rightarrow> string \<Rightarrow> int \<Rightarrow> error + int" where
  "title_loop [] title count = Inr count"
| "title_loop ((pat, value) # ps) title count =
     (case re_search pat title of
        None \<Rightarrow> title_loop ps title count
      | Some m \<Rightarrow>
          (case value of
             PyInt v \<Rightarrow> Inr v
           | PyStr _ \<Rightarrow> int_group1 m))"

text \<open>
  The loop over the body patterns; here the conversion is wrapped in
  \<^verbatim>\<open>try: ... except: count = 1\<close>.
\<close>

fun text_loop :: "(pattern \<times> pyobj) list \<Rightarrow> string \<Rightarrow> int \<Rightarrow> int" where
  "text_loop [] txt count = count"
| "text_loop ((pat, value) # ps) txt count =
     (case re_search pat txt of
        None \<Rightarrow> text_loop ps txt count
      | Some m \<Rightarrow>
          (case value of
             PyInt v \<Rightarrow> v
           | PyStr _ \<Rightarrow> (case int_group1 m of Inl e \<Rightarrow> 1 | Inr n \<Rightarrow> n)))"

text \<open>
  A row of the table, reduced to the two cells the extractor reads, each already turned
  into text by \<^verbatim>\<open>str(row.get(..., ''))\<close>.
\<close>

record row =
  jp_title :: string
  jp_full_text :: string

definition extract_position_count :: "row \<Rightarrow> error + int" where
  "extract_position_count r =
     (let title = lower (jp_title r) in
      case title_loop number_patterns title 1 of
        Inl e \<Rightarrow> Inl e
      | Inr count \<Rightarrow>
          (let count' =
             (if count = 1
              then (let full_text = lower (jp_full_text r)
                    in text_loop text_patterns (take 1000 full_text) count)
              else count)
           in Inr (min count' 10)))"

section \<open>Dates and the academic year\<close>

record date =
  year :: int
  month :: nat
  day :: nat

definition academic_year_of :: "date \<Rightarrow> int" where
  \<comment> \<open>\<^verbatim>\<open>lambda x: x.year if x.month >= 8 else x.year - 1\<close>\<close>
  "academic_year_of x = (if month x \<ge> 8 then year x else year x - 1)"

text \<open>
  A row of the table before the date analysis carries the cell \<^verbatim>\<open>Date_Active\<close>
  (\<open>None\<close> is the value \<^verbatim>\<open>NaT\<close> that \<^verbatim>\<open>pd.to_datetime(..., errors='coerce')\<close> leaves
  for a missing or unparseable date) and the count of the extractor; the analysis adds the
  ISO week and the academic year.

  The column \<^verbatim>\<open>position_count\<close> is a column of 64-bit integers (\<^verbatim>\<open>int64\<close>): its sums
  wrap around, and \<open>sint\<close> reads a value as the signed integer it stands for.
\<close>

type_synonym int64 = "64 word"

record dated_row =
  Date_Active :: "date option"
  position_count :: int64

record posting = dated_row +
  iso_week :: nat
  academic_year :: int

text \<open>
  The rows of \<^verbatim>\<open>analyze_date_fields\<close>: rows without a valid date are removed
  (\<^verbatim>\<open>df[valid_dates]\<close>), the others are annotated. The ISO week of a date is computed by
  the date library (\<^verbatim>\<open>dt.isocalendar().week\<close>), which is a parameter here.
\<close>

fun annotate_rows :: "(date \<Rightarrow> nat) \<Rightarrow> dated_row list \<Rightarrow> posting list" where
  "annotate_rows isocalendar_week [] = []"
| "annotate_rows isocalendar_week (r # df) =
     (case Date_Active r of
        None \<Rightarrow> annotate_rows isocalendar_week df
      | Some x \<Rightarrow>
          \<lparr>Date_Active = Some x, position_count = position_count r,
           iso_week = isocalendar_week x, academic_year = academic_year_of x\<rparr>
          # annotate_rows isocalendar_week df)"

text \<open>
  \<^verbatim>\<open>analyze_date_fields\<close> itself: a table that has no column \<^verbatim>\<open>Date_Active\<close> gives
  \<^verbatim>\<open>None\<close>. The table is its list of column names together with its rows.
\<close>

definition analyze_date_fields ::
    "(date \<Rightarrow> nat) \<Rightarrow> string list \<Rightarrow> dated_row list \<Rightarrow> posting list option" where
  "analyze_date_fields isocalendar_week columns df =
     (if ''Date_Active'' \<notin> set columns then None
      else Some (annotate_rows isocalendar_week df))"

section \<open>The weekly cumulative aggregator\<close>

record weekly_series =
  weeks :: "nat list"
  cumulative :: "int64 list"
  total_openings :: int64
  postings :: nat

definition unique_sorted :: "('a::linorder) list \<Rightarrow> 'a list" where
  \<comment> \<open>\<^verbatim>\<open>sorted(column.unique())\<close>\<close>
  "unique_sorted xs = sort (remdups xs)"

definition groupby_week_sum :: "posting list \<Rightarrow> (nat \<times> int64) list" where
  \<comment> \<open>\<^verbatim>\<open>year_data.groupby('iso_week')['position_count'].sum()\<close>: one entry for each
      week that occurs, holding the 64-bit sum of the counts of its rows\<close>
  "groupby_week_sum year_data =
     map (\<lambda>w. (w, sum_list (map position_count (filter (\<lambda>r. iso_week r = w) year_data))))
       (unique_sorted (map iso_week year_data))"

text \<open>
  The loop over \<^verbatim>\<open>range(30, 58)\<close>, with the list \<^verbatim>\<open>cumulative\<close> (here \<open>cum\<close>) and
  the running total \<open>total_so_far\<close> as its state. The total is added up in 64-bit
  integers, as the entries of \<^verbatim>\<open>week_openings\<close> are.
\<close>

fun week_loop ::
    "nat list \<Rightarrow> (nat \<times> int64) list \<Rightarrow> int64 list \<Rightarrow> int64 \<Rightarrow> int64 list \<times> int64" where
  "week_loop [] week_openings cum total_so_far = (cum, total_so_far)"
| "week_loop (week # ws) week_openings cum total_so_far =
     (let total_so_far' =
        (case map_of week_openings week of
           Some v \<Rightarrow> total_so_far + v
         | None \<Rightarrow> total_so_far)
      in week_loop ws week_openings (cum @ [total_so_far']) total_so_far')"

definition year_series :: "posting list \<Rightarrow> weekly_series" where
  "year_series year_data =
     (let week_openings = groupby_week_sum year_data;
          ws = [30 ..< 58];
          (cum, total_so_far) = week_loop ws week_openings [] 0
      in \<lparr>weeks = ws, cumulative = cum, total_openings = total_so_far,
          postings = length year_data\<rparr>)"

text \<open>
  The result dictionary keeps its insertion order, which is the sorted order of the
  academic years; it is an association list with one entry for each year.
\<close>

definition create_weekly_cumulative :: "posting list \<Rightarrow> (int \<times> weekly_series) list" where
  "create_weekly_cumulative df =
     map (\<lambda>ac_year. (ac_year, year_series (filter (\<lambda>r. academic_year r = ac_year) df)))
       (unique_sorted (map academic_year df))"

section \<open>The truncation of the current year in the site generator\<close>

text \<open>
  The loop \<^verbatim>\<open>for i in range(len(cumulative) - 1, 0, -1)\<close> of \<^verbatim>\<open>generate_data_json\<close>:
  at the first index whose value is above its predecessor both lists are cut after that
  index and the loop ends. The caller has turned the values into Python integers before
  (\<^verbatim>\<open>[int(c) for c in data['cumulative']]\<close>).
\<close>

fun truncate_scan :: "nat list \<Rightarrow> nat list \<Rightarrow> int list \<Rightarrow> nat list \<times> int list" where
  "truncate_scan [] ws cum = (ws, cum)"
| "truncate_scan (i # is) ws cum =
     (if cum ! i > cum ! (i - 1)
      then (take (i + 1) ws, take (i + 1) cum)
      else truncate_scan is ws cum)"

text \<open>
  The views "US academic" and "all sections" guard the loop with
  \<^verbatim>\<open>year == 2025 and len(weeks) > 0\<close>.
\<close>

definition truncate_current :: "int \<Rightarrow> weekly_series \<Rightarrow> nat list \<times> int list" where
  "truncate_current yr data =
     (let ws = weeks data; cum = map sint (cumulative data)
      in if yr = 2025 \<and> length ws > 0
         then truncate_scan (rev [1 ..< length cum]) ws cum
         else (ws, cum))"

text \<open>
  The views of the other sections run the same loop for every year, under
  \<^verbatim>\<open>len(weeks) > 0\<close> alone.
\<close>

definition truncate_other_sections :: "int \<Rightarrow> weekly_series \<Rightarrow> nat list \<times> int list" where
  "truncate_other_sections yr data =
     (let ws = weeks data; cum = map sint (cumulative data)
      in if length ws > 0
         then truncate_scan (rev [1 ..< length cum]) ws cum
         else (ws, cum))"

section \<open>Auxiliary definitions for the proofs\<close>

text \<open>
  The amount a week adds to the running total in \<^verbatim>\<open>create_weekly_cumulative\<close>: the entry
  of \<^verbatim>\<open>week_openings\<close> when the week is in its index, and nothing otherwise.
\<close>

definition week_value :: "(nat \<times> int64) list \<Rightarrow> nat \<Rightarrow> int64" where
  "week_value week_openings w = (case map_of week_openings w of Some v \<Rightarrow> v | None \<Rightarrow> 0)"

text \<open>An example table: the two postings of the worked example and one of March.\<close>

definition example_postings :: "posting list" where
  \<comment> \<open>two postings of September 2024 and one of March 2025, all of the academic year 2024\<close>
  "example_postings =
     [\<lparr>Date_Active = Some \<lparr>year = 2024, month = 9, day = 15\<rparr>, position_count = 1,
       iso_week = 37, academic_year = 2024\<rparr>,
      \<lparr>Date_Active = Some \<lparr>year = 2024, month = 9, day = 20\<rparr>, position_count = 3,
       iso_week = 38, academic_year = 2024\<rparr>,
      \<lparr>Date_Active = Some \<lparr>year = 2025, month = 3, day = 5\<rparr>, position_count = 2,
       iso_week = 10, academic_year = 2024\<rparr>]"

text \<open>
  A table whose most recent academic year is 2026: one posting of September 2026.
\<close>

definition example_postings_2026 :: "posting list" where
  "example_postings_2026 =
     [\<lparr>Date_Active = Some \<lparr>year = 2026, month = 9, day = 15\<rparr>, position_count = 2,
       iso_week = 38, academic_year = 2026\<rparr>]"

text \<open>A table before the date analysis, with one row that has no date.\<close>

definition example_rows :: "dated_row list" where
  "example_rows =
     [\<lparr>Date_Active = Some \<lparr>year = 2024, month = 8, day = 1\<rparr>, position_count = 1\<rparr>,
      \<lparr>Date_Active = None, position_count = 1\<rparr>,
      \<lparr>Date_Active = Some \<lparr>year = 2025, month = 3, day = 5\<rparr>, position_count = 2\<rparr>]"

text \<open>A table whose sum does not fit into 64 bits: two rows with the count \<open>2 ^ 62\<close>.\<close>

definition wrap_rows :: "posting list" where
  "wrap_rows =
     [\<lparr>Date_Active = Some \<lparr>year = 2024, month = 9, day = 15\<rparr>, position_count = 2 ^ 62,
       iso_week = 37, academic_year = 2024\<rparr>,
      \<lparr>Date_Active = Some \<lparr>year = 2024, month = 9, day = 16\<rparr>, position_count = 2 ^ 62,
       iso_week = 37, academic_year = 2024\<rparr>]"

section \<open>Properties of the extractor\<close>

lemma title_loop_no_match:
  "\<forall>(p, v) \<in> set ps. re_search p t = None \<Longrightarrow> title_loop ps t c = Inr c"
  by (induction ps) auto

lemma text_loop_no_match:
  "\<forall>(p, v) \<in> set ps. re_search p t = None \<Longrightarrow> text_loop ps t c = c"
  by (induction ps) auto

lemma title_loop_range:
  "\<forall>(p, v) \<in> set ps. \<exists>n. v = PyInt n \<and> lo \<le> n \<and> n \<le> hi \<Longrightarrow> lo \<le> c \<Longrightarrow> c \<le> hi
   \<Longrightarrow> \<exists>n. title_loop ps t c = Inr n \<and> lo \<le> n \<and> n \<le> hi"
  by (induction ps) (auto split: option.splits)

lemma text_loop_range:
  "\<forall>(p, v) \<in> set ps. \<exists>n. v = PyInt n \<and> lo \<le> n \<and> n \<le> hi \<Longrightarrow> lo \<le> c \<Longrightarrow> c \<le> hi
   \<Longrightarrow> lo \<le> text_loop ps t c \<and> text_loop ps t c \<le> hi"
  by (induction ps) (auto split: option.splits)

lemma number_patterns_values:
  "\<forall>(p, v) \<in> set number_patterns. \<exists>n. v = PyInt n \<and> 1 \<le> n \<and> n \<le> 6"
  by (simp add: number_patterns_def)

lemma text_patterns_values:
  "\<forall>(p, v) \<in> set text_patterns. \<exists>n. v = PyInt n \<and> 1 \<le> n \<and> n \<le> 6"
  by (simp add: text_patterns_def)

text \<open>
  Every entry of both lists carries an integer, so the branch that converts the captured
  digits is never taken: the extractor raises nothing, and its result is one of the
  integers of the lists, between 1 and 6. The cap at 10 never changes it.
\<close>

lemma extract_position_count_range:
  "\<exists>n. extract_position_count r = Inr n \<and> 1 \<le> n \<and> n \<le> 6"
proof -
  obtain c where c: "title_loop number_patterns (lower (jp_title r)) 1 = Inr c" "1 \<le> c" "c \<le> 6"
    using title_loop_range [OF number_patterns_values, of 1 "lower (jp_title r)"] by auto
  have "1 \<le> text_loop text_patterns (take 1000 (lower (jp_full_text r))) 1
      \<and> text_loop text_patterns (take 1000 (lower (jp_full_text r))) 1 \<le> 6"
    using text_loop_range [OF text_patterns_values, of 1] by simp
  with c show ?thesis
    by (auto simp: extract_position_count_def Let_def)
qed

text \<open>
  Claim C1 (the result lies between 1 and 10, and a captured count above 10, as in the
  title "99 positions", is cut to exactly 10). The range holds
  (\<open>extract_position_count_range\<close>), but the captured count is never read: on the title
  "99 positions" with an empty body the extractor returns 1, not 10.
\<close>

theorem extract_position_count_99_positions:
  "extract_position_count \<lparr>jp_title = ''99 positions'', jp_full_text = ''''\<rparr> = Inr 1"
  by code_simp

text \<open>
  Claim C5 (the body patterns are consulted only when no title pattern matched, even when
  the title match yields 1). The source tests \<^verbatim>\<open>count == 1\<close> instead: the title
  "(1 position)" matches the first title pattern, and the body is searched all the same,
  so that the body "We have two openings" decides the result, 2.
\<close>

theorem extract_position_count_title_one_body_searched:
  "re_search [Lit ''('', CapDigits, Lit '' position'', OptCh ''s'', Lit '')'']
        (lower ''(1 position)'') = Some (Some ''1'')
   \<and> extract_position_count
       \<lparr>jp_title = ''(1 position)'', jp_full_text = ''We have two openings''\<rparr> = Inr 2
   \<and> extract_position_count
       \<lparr>jp_title = ''(1 position)'', jp_full_text = ''''\<rparr> = Inr 1"
  by code_simp

text \<open>
  Claim C6 (the first matching title pattern decides, so that a title with both "several"
  and "(4 positions)" yields 4). The parenthesised pattern is the first that matches the
  title "Several (4 positions)" and captures "4", but the extractor returns 1.
\<close>

theorem extract_position_count_several_4_positions:
  "re_search [WordB, Lit ''several'', WordB] (lower ''Several (4 positions)'') \<noteq> None
   \<and> re_search [Lit ''('', CapDigits, Lit '' position'', OptCh ''s'', Lit '')'']
        (lower ''Several (4 positions)'') = Some (Some ''4'')
   \<and> extract_position_count \<lparr>jp_title = ''Several (4 positions)'', jp_full_text = ''''\<rparr> = Inr 1"
  by code_simp

text \<open>
  Claim C7: when no pattern of the title list matches the lower-cased title and no pattern
  of the body list matches the first 1000 characters of the lower-cased body, the
  extractor returns exactly 1.
\<close>

theorem extract_position_count_no_pattern:
  assumes "\<forall>(p, v) \<in> set number_patterns. re_search p (lower (jp_title r)) = None"
    and "\<forall>(p, v) \<in> set text_patterns. re_search p (take 1000 (lower (jp_full_text r))) = None"
  shows "extract_position_count r = Inr 1"
  using title_loop_no_match [OF assms(1)] text_loop_no_match [OF assms(2)]
  by (simp add: extract_position_count_def)

theorem extract_position_count_no_pattern_witness:
  "list_all (\<lambda>(p, v). re_search p (lower ''Assistant Professor'') = None) number_patterns
   \<and> list_all (\<lambda>(p, v). re_search p (take 1000 (lower ''Apply now'')) = None) text_patterns
   \<and> extract_position_count
       \<lparr>jp_title = ''Assistant Professor'', jp_full_text = ''Apply now''\<rparr> = Inr 1"
proof -
  let ?r = "\<lparr>jp_title = ''Assistant Professor'', jp_full_text = ''Apply now''\<rparr>"
  have t: "list_all (\<lambda>(p, v). re_search p (lower ''Assistant Professor'') = None)
             number_patterns"
    by code_simp
  have b: "list_all (\<lambda>(p, v). re_search p (take 1000 (lower ''Apply now'')) = None)
             text_patterns"
    by code_simp
  have t': "\<forall>(p, v) \<in> set number_patterns. re_search p (lower (jp_title ?r)) = None"
    using t by (simp add: list_all_iff)
  have b': "\<forall>(p, v) \<in> set text_patterns.
             re_search p (take 1000 (lower (jp_full_text ?r))) = None"
    using b by (simp add: list_all_iff)
  from extract_position_count_no_pattern [OF t' b'] t b show ?thesis by blast
qed

section \<open>Properties of the date analysis\<close>

lemma annotate_rows_kept:
  "map (\<lambda>r. (Date_Active r, position_count r)) (annotate_rows wk df)
     = map (\<lambda>r. (Date_Active r, position_count r)) (filter (\<lambda>r. Date_Active r \<noteq> None) df)"
  by (induction df) (auto split: option.splits)

lemma annotate_rows_fields:
  "r \<in> set (annotate_rows wk df) \<Longrightarrow>
     \<exists>x r'. r' \<in> set df \<and> Date_Active r' = Some x \<and> Date_Active r = Some x
       \<and> academic_year r = academic_year_of x \<and> iso_week r = wk x"
  by (induction df) (auto split: option.splits)

lemma academic_year_of_cases:
  assumes "1 \<le> month x" and "month x \<le> 12"
  shows "academic_year_of x = Y \<longleftrightarrow>
          (year x = Y \<and> 8 \<le> month x \<and> month x \<le> 12)
        \<or> (year x = Y + 1 \<and> 1 \<le> month x \<and> month x \<le> 7)"
  using assms by (auto simp: academic_year_of_def)

text \<open>
  Claim C8: on a table that has the column \<^verbatim>\<open>Date_Active\<close> and whose dates are valid (a
  month between 1 and 12), the date analysis keeps every row that has a date, in order and
  with its date and count, and gives each of them as \<open>academic_year\<close> the calendar year of
  its date from August on and the year before otherwise; so a row has the academic year
  \<open>Y\<close> exactly when its date lies between August of \<open>Y\<close> and July of \<open>Y + 1\<close>.
\<close>

theorem analyze_date_fields_academic_year:
  assumes "''Date_Active'' \<in> set columns"
    and "\<forall>r \<in> set df. \<forall>x. Date_Active r = Some x \<longrightarrow> 1 \<le> month x \<and> month x \<le> 12"
  shows "\<exists>out. analyze_date_fields wk columns df = Some out
     \<and> map (\<lambda>r. (Date_Active r, position_count r)) out
         = map (\<lambda>r. (Date_Active r, position_count r)) (filter (\<lambda>r. Date_Active r \<noteq> None) df)
     \<and> (\<forall>r \<in> set out. \<exists>x. Date_Active r = Some x
           \<and> academic_year r = (if month x \<ge> 8 then year x else year x - 1)
           \<and> (\<forall>Y. academic_year r = Y \<longleftrightarrow>
                 (year x = Y \<and> 8 \<le> month x \<and> month x \<le> 12)
               \<or> (year x = Y + 1 \<and> 1 \<le> month x \<and> month x \<le> 7)))"
proof -
  let ?out = "annotate_rows wk df"
  have a: "analyze_date_fields wk columns df = Some ?out"
    using assms(1) by (simp add: analyze_date_fields_def)
  have c: "\<forall>r \<in> set ?out. \<exists>x. Date_Active r = Some x
           \<and> academic_year r = (if month x \<ge> 8 then year x else year x - 1)
           \<and> (\<forall>Y. academic_year r = Y \<longleftrightarrow>
                 (year x = Y \<and> 8 \<le> month x \<and> month x \<le> 12)
               \<or> (year x = Y + 1 \<and> 1 \<le> month x \<and> month x \<le> 7))"
  proof
    fix r assume "r \<in> set ?out"
    then obtain x r' where r': "r' \<in> set df" "Date_Active r' = Some x"
      and r: "Date_Active r = Some x" "academic_year r = academic_year_of x"
      using annotate_rows_fields by blast
    from assms(2) r' have m: "1 \<le> month x" "month x \<le> 12" by blast+
    have "academic_year r = (if month x \<ge> 8 then year x else year x - 1)"
      using r(2) by (simp add: academic_year_of_def)
    moreover have "\<forall>Y. academic_year r = Y \<longleftrightarrow>
                 (year x = Y \<and> 8 \<le> month x \<and> month x \<le> 12)
               \<or> (year x = Y + 1 \<and> 1 \<le> month x \<and> month x \<le> 7)"
      unfolding r(2) using academic_year_of_cases [OF m] by blast
    ultimately show "\<exists>x. Date_Active r = Some x
           \<and> academic_year r = (if month x \<ge> 8 then year x else year x - 1)
           \<and> (\<forall>Y. academic_year r = Y \<longleftrightarrow>
                 (year x = Y \<and> 8 \<le> month x \<and> month x \<le> 12)
               \<or> (year x = Y + 1 \<and> 1 \<le> month x \<and> month x \<le> 7))"
      using r(1) by blast
  qed
  from a annotate_rows_kept [of wk df] c show ?thesis by blast
qed

theorem analyze_date_fields_academic_year_witness:
  "''Date_Active'' \<in> set [''jp_title'', ''Date_Active'']
   \<and> list_all (\<lambda>r. case Date_Active r of None \<Rightarrow> True
                    | Some x \<Rightarrow> 1 \<le> month x \<and> month x \<le> 12) example_rows
   \<and> (\<exists>out. analyze_date_fields (\<lambda>x. 31) [''jp_title'', ''Date_Active''] example_rows = Some out
        \<and> map academic_year out = [2024, 2024])"
proof -
  let ?cols = "[''jp_title'', ''Date_Active'']"
  have h1: "''Date_Active'' \<in> set ?cols" by simp
  have v: "list_all (\<lambda>r. case Date_Active r of None \<Rightarrow> True
                    | Some x \<Rightarrow> 1 \<le> month x \<and> month x \<le> 12) example_rows"
    by (simp add: example_rows_def)
  then have h2: "\<forall>r \<in> set example_rows. \<forall>x. Date_Active r = Some x
      \<longrightarrow> 1 \<le> month x \<and> month x \<le> 12"
    by (auto simp: list_all_iff)
  from analyze_date_fields_academic_year [OF h1 h2, of "\<lambda>x. 31"]
  obtain out where a: "analyze_date_fields (\<lambda>x. 31) ?cols example_rows = Some out"
    and k: "map (\<lambda>r. (Date_Active r, position_count r)) out
         = map (\<lambda>r. (Date_Active r, position_count r))
             (filter (\<lambda>r. Date_Active r \<noteq> None) example_rows)"
    and y: "\<forall>r \<in> set out. \<exists>x. Date_Active r = Some x
           \<and> academic_year r = (if month x \<ge> 8 then year x else year x - 1)"
    by blast
  from k obtain r1 r2 where out: "out = [r1, r2]"
    and d: "Date_Active r1 = Some \<lparr>year = 2024, month = 8, day = 1\<rparr>"
           "Date_Active r2 = Some \<lparr>year = 2025, month = 3, day = 5\<rparr>"
    by (auto simp: example_rows_def map_eq_Cons_conv)
  from y d have "academic_year r1 = 2024" "academic_year r2 = 2024"
    unfolding out by auto
  with a h1 v show ?thesis unfolding out by simp
qed

section \<open>Properties of the aggregator\<close>

text \<open>
  Claim C9: on an empty collection of records the aggregator returns the empty mapping (the
  model has no error value at all: the function raises nothing).
\<close>

theorem create_weekly_cumulative_empty: "create_weekly_cumulative [] = []"
  by (simp add: create_weekly_cumulative_def unique_sorted_def)

lemma week_loop_step:
  "week_loop (w # ws) wo cum t
     = week_loop ws wo (cum @ [t + week_value wo w]) (t + week_value wo w)"
  by (simp add: week_value_def Let_def split: option.splits)

lemma week_loop_total:
  "snd (week_loop ws wo cum t) = t + sum_list (map (week_value wo) ws)"
proof (induction ws arbitrary: cum t)
  case Nil
  show ?case by simp
next
  case (Cons w ws)
  show ?case unfolding week_loop_step Cons.IH by (simp add: add.assoc)
qed

lemma week_loop_length:
  "length (fst (week_loop ws wo cum t)) = length cum + length ws"
proof (induction ws arbitrary: cum t)
  case Nil
  show ?case by simp
next
  case (Cons w ws)
  show ?case unfolding week_loop_step Cons.IH by simp
qed

lemma week_loop_last:
  "ws \<noteq> [] \<Longrightarrow> last (fst (week_loop ws wo cum t)) = snd (week_loop ws wo cum t)"
proof (induction ws arbitrary: cum t)
  case Nil
  then show ?case by simp
next
  case (Cons w ws)
  show ?case
  proof (cases "ws = []")
    case True
    then show ?thesis unfolding week_loop_step by simp
  next
    case False
    then show ?thesis unfolding week_loop_step using Cons.IH by simp
  qed
qed

lemma set_unique_sorted: "set (unique_sorted xs) = set xs"
  by (simp add: unique_sorted_def)

lemma distinct_unique_sorted: "distinct (unique_sorted xs)"
  by (simp add: unique_sorted_def)

lemma map_of_tabulate:
  "map_of (map (\<lambda>k. (k, f k)) ks) k = (if k \<in> set ks then Some (f k) else None)"
  by (induction ks) auto

lemma week_value_groupby:
  "week_value (groupby_week_sum year_data) w
     = sum_list (map position_count (filter (\<lambda>r. iso_week r = w) year_data))"
proof (cases "w \<in> set (map iso_week year_data)")
  case True
  then show ?thesis
    by (simp add: week_value_def groupby_week_sum_def map_of_tabulate set_unique_sorted)
next
  case False
  then have "filter (\<lambda>r. iso_week r = w) year_data = []"
    by (auto simp: filter_empty_conv)
  with False show ?thesis
    by (simp add: week_value_def groupby_week_sum_def map_of_tabulate set_unique_sorted)
qed

lemma sum_list_filter_disj:
  fixes f :: "'a \<Rightarrow> 'b::comm_monoid_add"
  shows "\<forall>r. \<not> (P r \<and> Q r) \<Longrightarrow>
   sum_list (map f (filter (\<lambda>r. P r \<or> Q r) xs))
     = sum_list (map f (filter P xs)) + sum_list (map f (filter Q xs))"
  by (induction xs) (auto simp: ac_simps)

lemma sum_list_by_key:
  fixes f :: "'a \<Rightarrow> 'b::comm_monoid_add"
  shows "distinct ws \<Longrightarrow>
   sum_list (map (\<lambda>w. sum_list (map f (filter (\<lambda>r. g r = w) xs))) ws)
     = sum_list (map f (filter (\<lambda>r. g r \<in> set ws) xs))"
proof (induction ws)
  case Nil
  show ?case by simp
next
  case (Cons w ws)
  have "sum_list (map f (filter (\<lambda>r. g r = w \<or> g r \<in> set ws) xs))
      = sum_list (map f (filter (\<lambda>r. g r = w) xs)) + sum_list (map f (filter (\<lambda>r. g r \<in> set ws) xs))"
    using Cons.prems by (intro sum_list_filter_disj) auto
  with Cons show ?case by simp
qed

lemma year_series_fields:
  "weeks (year_series yd) = [30 ..< 58]"
  "cumulative (year_series yd) = fst (week_loop [30 ..< 58] (groupby_week_sum yd) [] 0)"
  "total_openings (year_series yd) = snd (week_loop [30 ..< 58] (groupby_week_sum yd) [] 0)"
  "postings (year_series yd) = length yd"
  unfolding year_series_def Let_def case_prod_beta
  by (simp_all only: weekly_series.select_convs)

lemma year_series_total:
  "total_openings (year_series yd)
     = sum_list (map position_count (filter (\<lambda>r. 30 \<le> iso_week r \<and> iso_week r \<le> 57) yd))"
proof -
  have "total_openings (year_series yd)
      = sum_list (map (\<lambda>w. sum_list (map position_count (filter (\<lambda>r. iso_week r = w) yd))) [30 ..< 58])"
    by (simp only: year_series_fields week_loop_total week_value_groupby [abs_def] add_0)
  also have "\<dots> = sum_list (map position_count (filter (\<lambda>r. iso_week r \<in> set [30 ..< 58]) yd))"
    by (rule sum_list_by_key) (rule distinct_upt)
  also have "(\<lambda>r::posting. iso_week r \<in> set [30 ..< 58]) = (\<lambda>r. 30 \<le> iso_week r \<and> iso_week r \<le> 57)"
    unfolding set_upt atLeastLessThan_iff by (rule ext) arith
  finally show ?thesis .
qed

lemma year_series_last:
  "last (cumulative (year_series yd)) = total_openings (year_series yd)"
  unfolding year_series_fields by (rule week_loop_last) simp

lemma create_weekly_cumulative_lookup:
  "map_of (create_weekly_cumulative df) Y
     = (if Y \<in> academic_year ` set df
        then Some (year_series (filter (\<lambda>r. academic_year r = Y) df)) else None)"
  by (simp add: create_weekly_cumulative_def map_of_tabulate set_unique_sorted)

text \<open>
  Claim C2: for every academic year of the table, the series of that year has as its total
  the sum of the counts of exactly those rows of the year whose ISO week lies in 30..57,
  the total is the last element of \<open>cumulative\<close>, and \<open>postings\<close> is the number of all
  rows of the year, whatever their week. The sums are those of the 64-bit column.
\<close>

theorem create_weekly_cumulative_totals:
  assumes "Y \<in> academic_year ` set df"
  shows "\<exists>s. map_of (create_weekly_cumulative df) Y = Some s
     \<and> total_openings s
         = sum_list (map position_count
             (filter (\<lambda>r. academic_year r = Y \<and> 30 \<le> iso_week r \<and> iso_week r \<le> 57) df))
     \<and> total_openings s = last (cumulative s)
     \<and> postings s = length (filter (\<lambda>r. academic_year r = Y) df)"
  using assms
  by (simp add: create_weekly_cumulative_lookup year_series_total year_series_last
      year_series_fields(4))

theorem create_weekly_cumulative_totals_witness:
  "2024 \<in> academic_year ` set example_postings
   \<and> (\<exists>s. map_of (create_weekly_cumulative example_postings) 2024 = Some s
        \<and> total_openings s = 4 \<and> last (cumulative s) = 4 \<and> postings s = 3)"
proof -
  have h: "2024 \<in> academic_year ` set example_postings"
    by (simp add: example_postings_def)
  have t: "sum_list (map position_count
             (filter (\<lambda>r. academic_year r = 2024 \<and> 30 \<le> iso_week r \<and> iso_week r \<le> 57)
                example_postings)) = 4"
    by (simp add: example_postings_def)
  have p: "length (filter (\<lambda>r. academic_year r = 2024) example_postings) = 3"
    by (simp add: example_postings_def)
  from create_weekly_cumulative_totals [OF h] t p h show ?thesis by auto
qed

text \<open>Sums of 64-bit integers that do not wrap around.\<close>

lemma sint_add_no_wrap:
  fixes a b :: int64
  assumes "0 \<le> sint a" and "0 \<le> sint b" and "sint a + sint b < 2 ^ 63"
  shows "sint (a + b) = sint a + sint b"
proof -
  have "sint (a + b) = signed_take_bit 63 (sint a + sint b)"
    by (simp add: sint_word_add)
  also have "\<dots> = sint a + sint b"
    using assms by (intro signed_take_bit_int_eq_self) simp_all
  finally show ?thesis .
qed

lemma sint_sum_list_no_wrap:
  fixes xs :: "int64 list"
  assumes "\<forall>x \<in> set xs. 0 \<le> sint x" and "sum_list (map sint xs) < 2 ^ 63"
  shows "sint (sum_list xs) = sum_list (map sint xs)"
  using assms
proof (induction xs)
  case Nil
  show ?case by simp
next
  case (Cons x xs)
  have nn: "0 \<le> sum_list (map sint xs)"
    using Cons.prems(1) by (intro sum_list_nonneg) auto
  have x: "0 \<le> sint x" using Cons.prems(1) by simp
  from Cons.prems(2) x have "sum_list (map sint xs) < 2 ^ 63" by simp
  with Cons have ih: "sint (sum_list xs) = sum_list (map sint xs)" by simp
  have "sint (x + sum_list xs) = sint x + sint (sum_list xs)"
    using x nn Cons.prems(2) unfolding ih [symmetric]
    by (intro sint_add_no_wrap) (simp_all add: ih)
  then show ?case by (simp add: ih)
qed

lemma sum_list_filter_le:
  fixes f :: "'a \<Rightarrow> int"
  shows "\<forall>x \<in> set xs. 0 \<le> f x \<Longrightarrow> sum_list (map f (filter P xs)) \<le> sum_list (map f xs)"
  by (induction xs) (auto intro: add_increasing)

lemma week_loop_monotone:
  assumes "\<forall>w \<in> set ws. 0 \<le> sint (week_value wo w)"
    and "0 \<le> sint t"
    and "sint t + sum_list (map (\<lambda>w. sint (week_value wo w)) ws) < 2 ^ 63"
    and "sorted (map sint cum)"
    and "\<forall>c \<in> set cum. 0 \<le> sint c \<and> sint c \<le> sint t"
  shows "sorted (map sint (fst (week_loop ws wo cum t)))
     \<and> (\<forall>c \<in> set (fst (week_loop ws wo cum t)). 0 \<le> sint c)"
  using assms
proof (induction ws arbitrary: cum t)
  case Nil
  then show ?case by simp
next
  case (Cons w ws)
  let ?v = "week_value wo w"
  let ?t = "t + ?v"
  have v: "0 \<le> sint ?v" using Cons.prems(1) by simp
  have rest: "0 \<le> sum_list (map (\<lambda>w. sint (week_value wo w)) ws)"
    using Cons.prems(1) by (intro sum_list_nonneg) auto
  have b: "sint t + sint ?v + sum_list (map (\<lambda>w. sint (week_value wo w)) ws) < 2 ^ 63"
    using Cons.prems(3) by (simp add: add.assoc)
  with rest have "sint t + sint ?v < 2 ^ 63" by linarith
  with Cons.prems(2) v have t': "sint ?t = sint t + sint ?v"
    by (intro sint_add_no_wrap)
  have p1: "\<forall>w \<in> set ws. 0 \<le> sint (week_value wo w)" using Cons.prems(1) by simp
  have p2: "0 \<le> sint ?t" unfolding t' using Cons.prems(2) v by linarith
  have p3: "sint ?t + sum_list (map (\<lambda>w. sint (week_value wo w)) ws) < 2 ^ 63"
    unfolding t' using b .
  have le: "sint t \<le> sint ?t" unfolding t' using v by linarith
  have p4: "sorted (map sint (cum @ [?t]))"
    using Cons.prems(4,5) le by (auto simp: sorted_append intro: order_trans)
  have p5: "\<forall>c \<in> set (cum @ [?t]). 0 \<le> sint c \<and> sint c \<le> sint ?t"
    using Cons.prems(5) le p2 by (auto intro: order_trans)
  show ?case unfolding week_loop_step by (rule Cons.IH [OF p1 p2 p3 p4 p5])
qed

lemma week_value_no_wrap:
  assumes "\<forall>r \<in> set yd. 0 \<le> sint (position_count r)"
    and "sum_list (map (\<lambda>r. sint (position_count r)) yd) < 2 ^ 63"
  shows "sint (week_value (groupby_week_sum yd) w)
     = sum_list (map (\<lambda>r. sint (position_count r)) (filter (\<lambda>r. iso_week r = w) yd))"
proof -
  let ?xs = "map position_count (filter (\<lambda>r. iso_week r = w) yd)"
  have m: "map sint ?xs = map (\<lambda>r. sint (position_count r)) (filter (\<lambda>r. iso_week r = w) yd)"
    by simp
  have "sum_list (map (\<lambda>r. sint (position_count r)) (filter (\<lambda>r. iso_week r = w) yd))
      \<le> sum_list (map (\<lambda>r. sint (position_count r)) yd)"
    using assms(1) by (intro sum_list_filter_le) 
  with assms(2) have "sum_list (map sint ?xs) < 2 ^ 63" unfolding m by linarith
  moreover have "\<forall>x \<in> set ?xs. 0 \<le> sint x" using assms(1) by auto
  ultimately have "sint (sum_list ?xs) = sum_list (map sint ?xs)"
    by (intro sint_sum_list_no_wrap)
  then show ?thesis unfolding week_value_groupby m .
qed

lemma year_series_shape:
  "weeks (year_series yd) = [30 ..< 58] \<and> length (cumulative (year_series yd)) = 28"
  by (simp only: year_series_fields week_loop_length length_upt list.size) simp

lemma year_series_monotone:
  assumes "\<forall>r \<in> set yd. 0 \<le> sint (position_count r)"
    and "sum_list (map (\<lambda>r. sint (position_count r)) yd) < 2 ^ 63"
  shows "(\<forall>c \<in> set (cumulative (year_series yd)). 0 \<le> sint c)
     \<and> sorted (map sint (cumulative (year_series yd)))"
proof -
  let ?wo = "groupby_week_sum yd"
  let ?f = "\<lambda>r. sint (position_count r)"
  have wv: "\<And>w. sint (week_value ?wo w) = sum_list (map ?f (filter (\<lambda>r. iso_week r = w) yd))"
    using assms by (rule week_value_no_wrap)
  have nn: "\<forall>w \<in> set [30 ..< 58]. 0 \<le> sint (week_value ?wo w)"
    unfolding wv using assms(1) by (auto intro!: sum_list_nonneg)
  have "sum_list (map (\<lambda>w. sint (week_value ?wo w)) [30 ..< 58])
      = sum_list (map ?f (filter (\<lambda>r. iso_week r \<in> set [30 ..< 58]) yd))"
    unfolding wv by (rule sum_list_by_key) (rule distinct_upt)
  also have "\<dots> \<le> sum_list (map ?f yd)"
    using assms(1) by (intro sum_list_filter_le)
  finally have b: "sint (0::int64) + sum_list (map (\<lambda>w. sint (week_value ?wo w)) [30 ..< 58]) < 2 ^ 63"
    using assms(2) by simp
  have "sorted (map sint (fst (week_loop [30 ..< 58] ?wo [] 0)))
     \<and> (\<forall>c \<in> set (fst (week_loop [30 ..< 58] ?wo [] 0)). 0 \<le> sint c)"
    by (rule week_loop_monotone [OF nn _ b]) simp_all
  then show ?thesis by (simp only: year_series_fields) blast
qed

text \<open>The counts the extractor returns are stored unchanged in the 64-bit column.\<close>

lemma extract_position_count_int64:
  "\<exists>n. extract_position_count r = Inr n \<and> sint (word_of_int n :: int64) = n \<and> 1 \<le> n"
proof -
  obtain n where n: "extract_position_count r = Inr n" "1 \<le> n" "n \<le> 6"
    using extract_position_count_range by blast
  then have "sint (word_of_int n :: int64) = n"
    by (simp add: sint_sbintrunc' signed_take_bit_int_eq_self)
  with n show ?thesis by blast
qed

text \<open>The table with two counts of \<open>2 ^ 62\<close> in week 37: the running total wraps around.\<close>

lemma year_series_wraps:
  "map sint (cumulative (year_series wrap_rows)) ! 6 = 0
   \<and> map sint (cumulative (year_series wrap_rows)) ! 7 = - (2 ^ 63)"
  unfolding year_series_fields
  by (simp add: week_loop_step week_value_groupby wrap_rows_def del: week_loop.simps(2))

text \<open>
  Claim C3: every series the aggregator produces has the weeks 30, 31, ..., 57 (28
  entries, strictly increasing) and a list \<open>cumulative\<close> of the same length, whose elements
  are non-negative and never decrease from one index to the next. This holds for the
  tables whose counts are not negative and add up to less than \<open>2 ^ 63\<close>: the counts of the
  extractor are between 1 and 6 (\<open>extract_position_count_int64\<close>), and beyond that bound
  the 64-bit sum wraps around (\<open>year_series_wraps\<close>).
\<close>

theorem create_weekly_cumulative_series_shape:
  assumes "\<forall>r \<in> set df. 0 \<le> sint (position_count r)"
    and "sum_list (map (\<lambda>r. sint (position_count r)) df) < 2 ^ 63"
    and "(Y, s) \<in> set (create_weekly_cumulative df)"
  shows "weeks s = [30 ..< 58] \<and> length (weeks s) = 28 \<and> sorted_wrt (<) (weeks s)
     \<and> length (cumulative s) = length (weeks s)
     \<and> (\<forall>c \<in> set (cumulative s). 0 \<le> sint c)
     \<and> (\<forall>i. Suc i < length (cumulative s)
           \<longrightarrow> sint (cumulative s ! i) \<le> sint (cumulative s ! Suc i))"
proof -
  let ?yd = "filter (\<lambda>r. academic_year r = Y) df"
  let ?f = "\<lambda>r. sint (position_count r)"
  from assms(3) have s: "s = year_series ?yd"
    by (auto simp: create_weekly_cumulative_def)
  have nn: "\<forall>r \<in> set ?yd. 0 \<le> sint (position_count r)" using assms(1) by simp
  have "sum_list (map ?f ?yd) \<le> sum_list (map ?f df)"
    using assms(1) by (intro sum_list_filter_le)
  with assms(2) have b: "sum_list (map ?f ?yd) < 2 ^ 63" by linarith
  have w: "weeks s = [30 ..< 58]" and l: "length (cumulative s) = 28"
    unfolding s using year_series_shape [of ?yd] by blast+
  have m: "(\<forall>c \<in> set (cumulative s). 0 \<le> sint c)" and so: "sorted (map sint (cumulative s))"
    unfolding s using year_series_monotone [OF nn b] by blast+
  have adj: "\<forall>i. Suc i < length (cumulative s)
      \<longrightarrow> sint (cumulative s ! i) \<le> sint (cumulative s ! Suc i)"
  proof (intro allI impI)
    fix i assume i: "Suc i < length (cumulative s)"
    then have "map sint (cumulative s) ! i \<le> map sint (cumulative s) ! Suc i"
      using so by (intro sorted_nth_mono) simp_all
    with i show "sint (cumulative s ! i) \<le> sint (cumulative s ! Suc i)" by simp
  qed
  have lw: "length (weeks s) = 28" unfolding w by (simp only: length_upt)
  have sw: "sorted_wrt (<) (weeks s)" unfolding w by (rule sorted_wrt_upt)
  from w lw sw l m adj show ?thesis by simp
qed

theorem create_weekly_cumulative_series_shape_witness:
  "list_all (\<lambda>r. 0 \<le> sint (position_count r)) example_postings
   \<and> sum_list (map (\<lambda>r. sint (position_count r)) example_postings) < 2 ^ 63
   \<and> create_weekly_cumulative example_postings = [(2024, year_series example_postings)]
   \<and> weeks (year_series example_postings) = [30 ..< 58]
   \<and> length (cumulative (year_series example_postings)) = 28
   \<and> 0 \<le> sint (cumulative (year_series example_postings) ! 7)
   \<and> sint (cumulative (year_series example_postings) ! 7)
       \<le> sint (cumulative (year_series example_postings) ! 8)"
proof -
  let ?s = "year_series example_postings"
  have nn: "list_all (\<lambda>r. 0 \<le> sint (position_count r)) example_postings"
    by (simp add: example_postings_def)
  then have nn': "\<forall>r \<in> set example_postings. 0 \<le> sint (position_count r)"
    by (simp add: list_all_iff)
  have b: "sum_list (map (\<lambda>r. sint (position_count r)) example_postings) < 2 ^ 63"
    by (simp add: example_postings_def)
  have c: "create_weekly_cumulative example_postings = [(2024, ?s)]"
    by (simp add: create_weekly_cumulative_def unique_sorted_def example_postings_def)
  then have m: "(2024, ?s) \<in> set (create_weekly_cumulative example_postings)" by simp
  note th = create_weekly_cumulative_series_shape [OF nn' b m]
  from th have l: "length (cumulative ?s) = 28" by simp
  have "cumulative ?s ! 7 \<in> set (cumulative ?s)" using l by (intro nth_mem) simp
  with th have "0 \<le> sint (cumulative ?s ! 7)" by blast
  moreover have "sint (cumulative ?s ! 7) \<le> sint (cumulative ?s ! 8)"
  proof -
    from th have adj: "\<forall>i. Suc i < length (cumulative ?s)
        \<longrightarrow> sint (cumulative ?s ! i) \<le> sint (cumulative ?s ! Suc i)" by blast
    have "Suc 7 < length (cumulative ?s)" unfolding l by simp
    with adj have "sint (cumulative ?s ! 7) \<le> sint (cumulative ?s ! Suc 7)" by blast
    moreover have "Suc 7 = (8::nat)" by simp
    ultimately show ?thesis by (simp only:)
  qed
  ultimately show ?thesis using th nn b c l by simp
qed

section \<open>Properties of the truncation of the current year\<close>

lemma truncate_scan_none:
  "\<forall>i \<in> set is. \<not> cum ! i > cum ! (i - 1) \<Longrightarrow> truncate_scan is ws cum = (ws, cum)"
  by (induction "is") auto

lemma truncate_scan_first:
  "\<forall>j \<in> set js. \<not> cum ! j > cum ! (j - 1) \<Longrightarrow> cum ! i > cum ! (i - 1)
   \<Longrightarrow> truncate_scan (js @ i # is) ws cum = (take (i + 1) ws, take (i + 1) cum)"
  by (induction js) auto

lemma rev_upt_split:
  assumes "1 \<le> i" and "i < n"
  shows "rev [1 ..< n] = rev [Suc i ..< n] @ i # rev [1 ..< i]"
proof -
  have "[1 ..< n] = [1 ..< i] @ i # [Suc i ..< n]"
  proof -
    from assms(2) obtain k where n: "n = i + k" and k: "0 < k"
      by (metis less_imp_add_positive)
    have "[1 ..< i + k] = [1 ..< i] @ [i ..< i + k]"
      using assms(1) by (rule upt_add_eq_append)
    also have "[i ..< i + k] = i # [Suc i ..< i + k]"
      using k by (simp add: upt_conv_Cons)
    finally show ?thesis unfolding n .
  qed
  then show ?thesis by simp
qed

lemma truncate_scan_last_increase:
  assumes "1 \<le> i" and "i < length cum" and "cum ! i > cum ! (i - 1)"
    and "\<forall>j. i < j \<and> j < length cum \<longrightarrow> \<not> cum ! j > cum ! (j - 1)"
  shows "truncate_scan (rev [1 ..< length cum]) ws cum = (take (i + 1) ws, take (i + 1) cum)"
proof -
  have "\<forall>j \<in> set (rev [Suc i ..< length cum]). \<not> cum ! j > cum ! (j - 1)"
    using assms(4) by auto
  then show ?thesis
    unfolding rev_upt_split [OF assms(1,2)] using assms(3) by (rule truncate_scan_first)
qed

text \<open>What the guarded loop does for the year 2025, and the unguarded one for every year.\<close>

lemma truncate_current_2025:
  assumes "weeks data \<noteq> []"
    and "1 \<le> i" and "i < length (cumulative data)"
    and "sint (cumulative data ! i) > sint (cumulative data ! (i - 1))"
    and "\<forall>j. i < j \<and> j < length (cumulative data)
           \<longrightarrow> \<not> sint (cumulative data ! j) > sint (cumulative data ! (j - 1))"
  shows "truncate_current 2025 data
     = (take (i + 1) (weeks data), take (i + 1) (map sint (cumulative data)))"
    and "truncate_other_sections yr data
     = (take (i + 1) (weeks data), take (i + 1) (map sint (cumulative data)))"
proof -
  let ?cum = "map sint (cumulative data)"
  have "truncate_scan (rev [1 ..< length ?cum]) (weeks data) ?cum
      = (take (i + 1) (weeks data), take (i + 1) ?cum)"
    using assms(2-5) by (intro truncate_scan_last_increase) auto
  with assms(1) show "truncate_current 2025 data
     = (take (i + 1) (weeks data), take (i + 1) (map sint (cumulative data)))"
    and "truncate_other_sections yr data
     = (take (i + 1) (weeks data), take (i + 1) (map sint (cumulative data)))"
    by (simp_all add: truncate_current_def truncate_other_sections_def Let_def)
qed

lemma truncate_current_other_year:
  "yr \<noteq> 2025 \<Longrightarrow> truncate_current yr data = (weeks data, map sint (cumulative data))"
  by (simp add: truncate_current_def Let_def)

lemma year_series_2026:
  "weeks (year_series example_postings_2026) = [30 ..< 58]"
  "cumulative (year_series example_postings_2026)
     = [0, 0, 0, 0, 0, 0, 0, 0, 2, 2, 2, 2, 2, 2, 2, 2, 2, 2,
          2, 2, 2, 2, 2, 2, 2, 2, 2, 2]"
  unfolding year_series_fields
  by (simp_all add: week_loop_step week_value_groupby example_postings_2026_def
      del: week_loop.simps(2))

text \<open>
  Claim C4 (for the most recent academic year, both lists are cut after the last index at
  which \<open>cumulative\<close> is above its predecessor). The two guarded loops do so for the year
  2025 only (\<open>truncate_current_2025\<close>): on a table whose most recent academic year is 2026
  the series keeps its flat tail, all 28 entries, where the loop of the other sections cuts
  it after week 38.
\<close>

theorem truncate_current_2026_not_cut:
  "create_weekly_cumulative example_postings_2026 = [(2026, year_series example_postings_2026)]
   \<and> truncate_current 2026 (year_series example_postings_2026)
       = ([30 ..< 58],
          [0, 0, 0, 0, 0, 0, 0, 0, 2, 2, 2, 2, 2, 2, 2, 2, 2, 2,
          2, 2, 2, 2, 2, 2, 2, 2, 2, 2])
   \<and> truncate_other_sections 2026 (year_series example_postings_2026)
       = ([30 ..< 39], [0, 0, 0, 0, 0, 0, 0, 0, 2])"
proof -
  have c: "create_weekly_cumulative example_postings_2026
      = [(2026, year_series example_postings_2026)]"
    by (simp add: create_weekly_cumulative_def unique_sorted_def example_postings_2026_def)
  have t: "truncate_current 2026 (year_series example_postings_2026)
       = ([30 ..< 58],
          [0, 0, 0, 0, 0, 0, 0, 0, 2, 2, 2, 2, 2, 2, 2, 2, 2, 2,
          2, 2, 2, 2, 2, 2, 2, 2, 2, 2])"
    by (simp add: truncate_current_other_year year_series_2026)
  have o: "truncate_other_sections 2026 (year_series example_postings_2026)
       = ([30 ..< 39], [0, 0, 0, 0, 0, 0, 0, 0, 2])"
    by (simp add: truncate_other_sections_def year_series_2026 Let_def)
  from c t o show ?thesis by simp
qed

text \<open>
  Claim C10: when no index \<open>i \<ge> 1\<close> has \<open>cumulative\<close> above its predecessor, the
  truncation leaves both lists as they are, at their full length.
\<close>

theorem truncate_current_constant:
  assumes "\<forall>i. 1 \<le> i \<and> i < length (cumulative data)
           \<longrightarrow> \<not> sint (cumulative data ! i) > sint (cumulative data ! (i - 1))"
  shows "truncate_current yr data = (weeks data, map sint (cumulative data))"
proof -
  let ?cum = "map sint (cumulative data)"
  have "\<forall>i \<in> set (rev [1 ..< length ?cum]). \<not> ?cum ! i > ?cum ! (i - 1)"
    using assms by auto
  then have "truncate_scan (rev [1 ..< length ?cum]) (weeks data) ?cum = (weeks data, ?cum)"
    by (rule truncate_scan_none)
  then show ?thesis by (simp add: truncate_current_def Let_def)
qed

theorem truncate_current_constant_witness:
  "truncate_current 2025
     \<lparr>weeks = [30 ..< 58], cumulative = replicate 28 0, total_openings = 0, postings = 1\<rparr>
   = ([30 ..< 58], replicate 28 0)"
proof -
  let ?d = "\<lparr>weeks = [30 ..< 58], cumulative = replicate 28 0, total_openings = 0,
             postings = 1\<rparr>"
  have flat: "\<forall>i. 1 \<le> i \<and> i < length (cumulative ?d)
                \<longrightarrow> \<not> sint (cumulative ?d ! i) > sint (cumulative ?d ! (i - 1))"
    by auto
  from truncate_current_constant [OF flat, of 2025] show ?thesis by simp
qed

end
